theory Spec2Isabelle
  imports Main
begin

section \<open>JavaScript strings and numbers\<close>

text \<open>
  A JavaScript string is a sequence of UTF-16 code units; a code unit is modelled by its
  number, an integer. ASCII literals of the source are written \<open>js ''...''\<close>.
\<close>

type_synonym jsstring = "int list"

definition js :: "string \<Rightarrow> jsstring" where
  "js s = map of_char s"

text \<open>\<open>String.prototype.trim\<close> removes WhiteSpace and LineTerminator code units at both ends.\<close>

definition isWhiteSpace :: "int \<Rightarrow> bool" where
  "isWhiteSpace c = (c \<in> {9, 10, 11, 12, 13, 32, 160, 5760, 8232, 8233, 8239, 8287, 12288, 65279}
     \<or> (8192 \<le> c \<and> c \<le> 8202))"

definition trim :: "jsstring \<Rightarrow> jsstring" where
  "trim s = rev (dropWhile isWhiteSpace (rev (dropWhile isWhiteSpace s)))"

text \<open>\<open>s.includes(t)\<close>: \<open>t\<close> occurs in \<open>s\<close> as a contiguous substring.\<close>

fun js_includes :: "jsstring \<Rightarrow> jsstring \<Rightarrow> bool" where
  "js_includes [] t = (t = [])"
| "js_includes (c # s) t = (take (length t) (c # s) = t \<or> js_includes s t)"

text \<open>\<open>s.split(sep)\<close> for a separator of one code unit; \<open>''.split('/')\<close> is \<open>['']\<close>.\<close>

fun js_split :: "int \<Rightarrow> jsstring \<Rightarrow> jsstring list" where
  "js_split sep [] = [[]]"
| "js_split sep (c # cs) =
     (if c = sep then [] # js_split sep cs
      else (case js_split sep cs of [] \<Rightarrow> [[c]] | x # xs \<Rightarrow> (c # x) # xs))"

text \<open>\<open>xs.join(sep)\<close>.\<close>

fun js_join :: "jsstring \<Rightarrow> jsstring list \<Rightarrow> jsstring" where
  "js_join sep [] = []"
| "js_join sep [x] = x"
| "js_join sep (x # y # ys) = x @ sep @ js_join sep (y # ys)"

text \<open>\<open>s.padStart(n, c)\<close> for a one-unit filler.\<close>

definition padStart :: "nat \<Rightarrow> int \<Rightarrow> jsstring \<Rightarrow> jsstring" where
  "padStart n c s = replicate (n - length s) c @ s"

text \<open>\<open>String(n)\<close> for an integer-valued number: decimal digits, with a minus sign when negative.\<close>

function digits :: "int \<Rightarrow> jsstring" where
  "digits n = (if n < 10 then [48 + n] else digits (n div 10) @ [48 + n mod 10])"
  by pat_completeness auto
termination
  by (relation "measure nat") auto

definition js_String :: "int \<Rightarrow> jsstring" where
  "js_String i = (if i < 0 then 45 # digits (- i) else digits i)"

text \<open>
  \<open>Number(s)\<close>. A number is \<open>Some i\<close> for the integer \<open>i\<close> and \<open>None\<close> for \<open>NaN\<close>.
  The conversion is modelled on what the date helpers feed it: after trimming, the empty
  string is 0 and a string of decimal digits is its value (leading zeros included, so
  \<open>Number('05')\<close> is 5). Every other string is given \<open>NaN\<close>; signs, fractions, exponents
  and radix prefixes are outside the model, and no theorem below relies on them.
\<close>

definition isDigit :: "int \<Rightarrow> bool" where
  "isDigit c = (48 \<le> c \<and> c \<le> 57)"

definition decimalValue :: "jsstring \<Rightarrow> int" where
  "decimalValue s = foldl (\<lambda>a c. 10 * a + (c - 48)) 0 s"

definition js_Number :: "jsstring \<Rightarrow> int option" where
  "js_Number s =
     (let t = trim s in
      if t = [] then Some 0
      else if list_all isDigit t then Some (decimalValue t)
      else None)"

section \<open>The Date object\<close>

text \<open>
  The code reads of a Date only its local calendar fields and compares Dates built with
  the same time of day, so a Date is modelled by its local day number: days since
  1970-01-01. \<open>None\<close> is the Invalid Date. The day arithmetic is ECMAScript's
  (DayFromYear, YearFromTime, MonthFromTime, DateFromTime, WeekDay, MakeDay).
\<close>

type_synonym jsdate = "int option"

definition dayFromYear :: "int \<Rightarrow> int" where
  "dayFromYear y = 365 * (y - 1970) + (y - 1969) div 4 - (y - 1901) div 100 + (y - 1601) div 400"

definition leapYear :: "int \<Rightarrow> bool" where
  "leapYear y = ((y mod 4 = 0 \<and> y mod 100 \<noteq> 0) \<or> y mod 400 = 0)"

text \<open>YearFromTime: the largest year whose first day is not after the day \<open>n\<close>, found by
  searching upwards from a year that is not after it.\<close>

function findYear :: "int \<Rightarrow> int \<Rightarrow> int" where
  "findYear n y = (if dayFromYear (y + 1) \<le> n then findYear n (y + 1) else y)"
  by pat_completeness auto
termination
proof (relation "measure (\<lambda>(n, y). nat (n + 1 - dayFromYear (y + 1)))")
  show "wf (measure (\<lambda>(n, y). nat (n + 1 - dayFromYear (y + 1))))" by simp
next
  fix n y :: int
  assume le: "dayFromYear (y + 1) \<le> n"
  define a1 a2 where "a1 = (y + 1 - 1969) div 4" and "a2 = (y + 1 + 1 - 1969) div 4"
  define b1 b2 where "b1 = (y + 1 - 1901) div 100" and "b2 = (y + 1 + 1 - 1901) div 100"
  define c1 c2 where "c1 = (y + 1 - 1601) div 400" and "c2 = (y + 1 + 1 - 1601) div 400"
  have a: "a1 \<le> a2"
    unfolding a1_def a2_def by (rule zdiv_mono1) simp_all
  have "b2 \<le> (y + 1 - 1901 + 100) div 100"
    unfolding b2_def by (rule zdiv_mono1) simp_all
  then have b: "b2 \<le> b1 + 1"
    unfolding b1_def by simp
  have c: "c1 \<le> c2"
    unfolding c1_def c2_def by (rule zdiv_mono1) simp_all
  have d1: "dayFromYear (y + 1) = 365 * (y + 1 - 1970) + a1 - b1 + c1"
    unfolding dayFromYear_def a1_def b1_def c1_def by (rule refl)
  have d2: "dayFromYear (y + 1 + 1) = 365 * (y + 1 + 1 - 1970) + a2 - b2 + c2"
    unfolding dayFromYear_def a2_def b2_def c2_def by (rule refl)
  have "dayFromYear (y + 1) < dayFromYear (y + 1 + 1)"
    unfolding d1 d2 using a b c by (simp add: algebra_simps)
  with le show "((n, y + 1), (n, y)) \<in> measure (\<lambda>(n, y). nat (n + 1 - dayFromYear (y + 1)))"
    by simp
qed

definition yearFromDay :: "int \<Rightarrow> int" where
  "yearFromDay n = findYear n (1970 + (if 0 \<le> n then n div 366 else n div 365))"

text \<open>Day number, within its year, of the first day of month \<open>m\<close> (0 to 11).\<close>

definition monthStart :: "bool \<Rightarrow> int \<Rightarrow> int" where
  "monthStart lp m =
     (if m = 0 then 0 else if m = 1 then 31
      else (if lp then 1 else 0) +
        (if m = 2 then 59 else if m = 3 then 90 else if m = 4 then 120
         else if m = 5 then 151 else if m = 6 then 181 else if m = 7 then 212
         else if m = 8 then 243 else if m = 9 then 273 else if m = 10 then 304
         else 334))"

definition dayWithinYear :: "int \<Rightarrow> int" where
  "dayWithinYear n = n - dayFromYear (yearFromDay n)"

definition monthFromDay :: "int \<Rightarrow> int" where
  "monthFromDay n =
     (let d = dayWithinYear n; l = (if leapYear (yearFromDay n) then 1 else 0) in
      if d < 31 then 0 else if d < 59 + l then 1 else if d < 90 + l then 2
      else if d < 120 + l then 3 else if d < 151 + l then 4 else if d < 181 + l then 5
      else if d < 212 + l then 6 else if d < 243 + l then 7 else if d < 273 + l then 8
      else if d < 304 + l then 9 else if d < 334 + l then 10 else 11)"

definition dateFromDay :: "int \<Rightarrow> int" where
  "dateFromDay n =
     dayWithinYear n - monthStart (leapYear (yearFromDay n)) (monthFromDay n) + 1"

definition weekDay :: "int \<Rightarrow> int" where
  "weekDay n = (n + 4) mod 7"

text \<open>MakeDay: the month may be any integer and carries into the year; the day of the
  month may be any integer and carries into the months.\<close>

definition makeDay :: "int \<Rightarrow> int \<Rightarrow> int \<Rightarrow> int" where
  "makeDay y m d =
     (let ym = y + m div 12; mn = m mod 12 in
      dayFromYear ym + monthStart (leapYear ym) mn + d - 1)"

text \<open>TimeClip: a Date holds at most 100,000,000 days on either side of the epoch.\<close>

definition timeClip :: "int \<Rightarrow> jsdate" where
  "timeClip n = (if \<bar>n\<bar> \<le> 100000000 then Some n else None)"

text \<open>\<open>new Date(year, monthIndex, day)\<close>: a \<open>NaN\<close> argument gives the Invalid Date, and
  a year from 0 to 99 means 1900 + year.\<close>

definition newDate :: "int option \<Rightarrow> int option \<Rightarrow> int option \<Rightarrow> jsdate" where
  "newDate year monthIndex day =
     (case (year, monthIndex, day) of
        (Some y, Some m, Some d) \<Rightarrow>
          timeClip (makeDay (if 0 \<le> y \<and> y \<le> 99 then 1900 + y else y) m d)
      | _ \<Rightarrow> None)"

definition getFullYear :: "int \<Rightarrow> int" where "getFullYear n = yearFromDay n"
definition getMonth :: "int \<Rightarrow> int" where "getMonth n = monthFromDay n"
definition getDate :: "int \<Rightarrow> int" where "getDate n = dateFromDay n"
definition getDay :: "int \<Rightarrow> int" where "getDay n = weekDay n"

text \<open>\<open>d.setDate(k)\<close> and \<open>d.setMonth(k)\<close> rebuild the day from the other two fields.\<close>

definition setDate :: "int \<Rightarrow> int \<Rightarrow> int" where
  "setDate n k = makeDay (getFullYear n) (getMonth n) k"

definition setMonth :: "int \<Rightarrow> int \<Rightarrow> int" where
  "setMonth n k = makeDay (getFullYear n) k (getDate n)"


section \<open>Date helpers\<close>

text \<open>An array element that is missing reads as \<open>undefined\<close>, which as a number is \<open>NaN\<close>.\<close>

definition element :: "int option list \<Rightarrow> nat \<Rightarrow> int option" where
  "element xs i = (if i < length xs then xs ! i else None)"

definition parseBRDate :: "jsstring \<Rightarrow> jsdate" where
  "parseBRDate br =
     (let parts = map js_Number (js_split 47 br);
          dd = element parts 0; mm = element parts 1; yyyy = element parts 2
      in newDate yyyy (map_option (\<lambda>m. m - 1) mm) dd)"

text \<open>\<open>getDay\<close> of the Invalid Date is \<open>NaN\<close>, which differs from 0 and from 6.\<close>

definition isWeekdayBR :: "jsstring \<Rightarrow> bool" where
  "isWeekdayBR dataBR =
     (case parseBRDate dataBR of
        None \<Rightarrow> True
      | Some d \<Rightarrow> (let day = getDay d in day \<noteq> 0 \<and> day \<noteq> 6))"

text \<open>\<open>new Date()\<close> is the parameter \<open>hoje\<close>, the day number of the current day.\<close>

definition getTodayBR :: "int \<Rightarrow> jsstring" where
  "getTodayBR hoje =
     (let dd = padStart 2 48 (js_String (getDate hoje));
          mm = padStart 2 48 (js_String (getMonth hoje + 1));
          yyyy = getFullYear hoje
      in dd @ js ''/'' @ mm @ js ''/'' @ js_String yyyy)"

text \<open>Every field of the Invalid Date is \<open>NaN\<close>, and \<open>String(NaN)\<close> is \<open>'NaN'\<close>.\<close>

definition brToIsoDateString :: "jsstring \<Rightarrow> jsstring" where
  "brToIsoDateString br =
     (case parseBRDate br of
        None \<Rightarrow> js ''NaN-NaN-NaN''
      | Some d \<Rightarrow>
          (let yyyy = getFullYear d;
               mm = padStart 2 48 (js_String (getMonth d + 1));
               dd = padStart 2 48 (js_String (getDate d))
           in js_String yyyy @ js ''-'' @ mm @ js ''-'' @ dd))"

subsection \<open>Calendar dates and their canonical strings\<close>

text \<open>A valid calendar date: month 1 to 12, day 1 to the length of the month.\<close>

definition daysInMonth :: "int \<Rightarrow> int \<Rightarrow> int" where
  "daysInMonth y m =
     (if m = 2 then (if leapYear y then 29 else 28)
      else if m = 4 \<or> m = 6 \<or> m = 9 \<or> m = 11 then 30 else 31)"

definition validDate :: "int \<Rightarrow> int \<Rightarrow> int \<Rightarrow> bool" where
  "validDate y m d = (1 \<le> m \<and> m \<le> 12 \<and> 1 \<le> d \<and> d \<le> daysInMonth y m)"

text \<open>The zero-padded \<open>DD/MM/YYYY\<close> string of a day, month and year.\<close>

definition canonBR :: "int \<Rightarrow> int \<Rightarrow> int \<Rightarrow> jsstring" where
  "canonBR d m y =
     padStart 2 48 (js_String d) @ [47] @ padStart 2 48 (js_String m) @ [47]
       @ padStart 4 48 (js_String y)"

text \<open>The zero-padded \<open>YYYY-MM-DD\<close> string of a year, month and day.\<close>

definition canonISO :: "int \<Rightarrow> int \<Rightarrow> int \<Rightarrow> jsstring" where
  "canonISO y m d =
     padStart 4 48 (js_String y) @ [45] @ padStart 2 48 (js_String m) @ [45]
       @ padStart 2 48 (js_String d)"

text \<open>The canonical string of the day with day number \<open>n\<close>.\<close>

definition canonOfDay :: "int \<Rightarrow> jsstring" where
  "canonOfDay n = canonBR (getDate n) (getMonth n + 1) (getFullYear n)"

section \<open>Facts about the calendar\<close>

lemma div_step:
  fixes a k :: int
  assumes "0 < k"
  shows "(a + 1) div k = a div k + (if (a + 1) mod k = 0 then 1 else 0)"
proof (cases "a mod k + 1 < k")
  case True
  have e: "a + 1 = k * (a div k) + (a mod k + 1)" by simp
  have r: "0 \<le> a mod k + 1" using assms by (simp add: add_nonneg_nonneg)
  have "(a + 1) div k = a div k" using int_div_pos_eq[OF e r True] .
  moreover have "(a + 1) mod k = a mod k + 1" using int_mod_pos_eq[OF e r True] .
  ultimately show ?thesis using pos_mod_sign[OF assms, of a] by simp
next
  case False
  then have m: "a mod k + 1 = k" using pos_mod_bound[OF assms, of a] by linarith
  have "a + 1 = k * (a div k) + (a mod k + 1)" by simp
  then have e: "a + 1 = k * (a div k + 1) + 0" unfolding m by (simp add: algebra_simps)
  have "(a + 1) div k = a div k + 1" using int_div_pos_eq[OF e _ assms] by simp
  moreover have "(a + 1) mod k = 0" using int_mod_pos_eq[OF e _ assms] by simp
  ultimately show ?thesis by simp
qed

lemma dayFromYear_Suc: "dayFromYear (y + 1) = dayFromYear y + (if leapYear y then 366 else 365)"
proof -
  have m4: "((y - 1968) mod 4 = 0) = (y mod 4 = 0)"
    using mod_diff_right_eq[of y 1968 4] by simp
  have m100: "((y - 1900) mod 100 = 0) = (y mod 100 = 0)"
    using mod_diff_right_eq[of y 1900 100] by simp
  have m400: "((y - 1600) mod 400 = 0) = (y mod 400 = 0)"
    using mod_diff_right_eq[of y 1600 400] by simp
  have a: "(y + 1 - 1969) div 4 = (y - 1969) div 4 + (if y mod 4 = 0 then 1 else 0)"
    using div_step[of 4 "y - 1969"] m4 by (simp add: algebra_simps)
  have b: "(y + 1 - 1901) div 100 = (y - 1901) div 100 + (if y mod 100 = 0 then 1 else 0)"
    using div_step[of 100 "y - 1901"] m100 by (simp add: algebra_simps)
  have c: "(y + 1 - 1601) div 400 = (y - 1601) div 400 + (if y mod 400 = 0 then 1 else 0)"
    using div_step[of 400 "y - 1601"] m400 by (simp add: algebra_simps)
  have d: "y mod 100 = 0" if "y mod 400 = 0"
  proof -
    have "(400::int) dvd y" using that by (simp add: mod_eq_0_iff_dvd)
    moreover have "(100::int) dvd 400" by simp
    ultimately have "(100::int) dvd y" by (rule dvd_trans[rotated])
    then show ?thesis by (simp add: mod_eq_0_iff_dvd)
  qed
  have e: "y mod 4 = 0" if "y mod 100 = 0"
  proof -
    have "(100::int) dvd y" using that by (simp add: mod_eq_0_iff_dvd)
    moreover have "(4::int) dvd 100" by simp
    ultimately have "(4::int) dvd y" by (rule dvd_trans[rotated])
    then show ?thesis by (simp add: mod_eq_0_iff_dvd)
  qed
  have s: "dayFromYear (y + 1) = dayFromYear y +
      (365 + (if y mod 4 = 0 then 1 else 0) - (if y mod 100 = 0 then 1 else 0) + (if y mod 400 = 0 then 1 else 0))"
    unfolding dayFromYear_def a b c by simp
  show ?thesis
  proof (cases "y mod 400 = 0")
    case True
    then show ?thesis using d e s by (simp add: leapYear_def)
  next
    case False
    then show ?thesis using e s by (cases "y mod 100 = 0") (simp_all add: leapYear_def)
  qed
qed

lemma dayFromYear_less_Suc: "dayFromYear y < dayFromYear (y + 1)"
  by (simp add: dayFromYear_Suc)

lemma dayFromYear_mono: "y \<le> z \<Longrightarrow> dayFromYear y \<le> dayFromYear z"
proof (induction z rule: int_ge_induct)
  case base
  show ?case by simp
next
  case (step i)
  then show ?case using dayFromYear_less_Suc[of i] by simp
qed

lemma dayFromYear_upper: "0 \<le> k \<Longrightarrow> dayFromYear (1970 + k) \<le> 366 * k"
proof (induction k rule: int_ge_induct)
  case base
  show ?case by (simp add: dayFromYear_def)
next
  case (step i)
  have "dayFromYear (1970 + i + 1) \<le> dayFromYear (1970 + i) + 366"
    unfolding dayFromYear_Suc by simp
  then show ?case using step by (simp add: algebra_simps)
qed

lemma dayFromYear_lower: "k \<le> 0 \<Longrightarrow> dayFromYear (1970 + k) \<le> 365 * k"
proof (induction k rule: int_le_induct)
  case base
  show ?case by (simp add: dayFromYear_def)
next
  case (step i)
  have "dayFromYear (1970 + (i - 1) + 1) \<ge> dayFromYear (1970 + (i - 1)) + 365"
    unfolding dayFromYear_Suc by simp
  then show ?case using step by (simp add: algebra_simps)
qed

lemma findYear_bounds:
  "dayFromYear y \<le> n \<Longrightarrow>
   dayFromYear (findYear n y) \<le> n \<and> n < dayFromYear (findYear n y + 1)"
proof (induction n y rule: findYear.induct)
  case (1 n y)
  show ?case
  proof (cases "dayFromYear (y + 1) \<le> n")
    case True
    then show ?thesis using "1.IH" by (subst (1 2) findYear.simps) simp
  next
    case False
    then show ?thesis using "1.prems" by (subst (1 2) findYear.simps) simp
  qed
qed

lemma yearFromDay_bounds:
  "dayFromYear (yearFromDay n) \<le> n \<and> n < dayFromYear (yearFromDay n + 1)"
proof -
  have "dayFromYear (1970 + (if 0 \<le> n then n div 366 else n div 365)) \<le> n"
  proof (cases "0 \<le> n")
    case True
    then have "0 \<le> n div 366" by simp
    then have "dayFromYear (1970 + n div 366) \<le> 366 * (n div 366)"
      by (rule dayFromYear_upper)
    moreover have "366 * (n div 366) \<le> n"
      using mult_div_mod_eq[of 366 n] pos_mod_sign[of 366 n] by linarith
    ultimately show ?thesis using True by simp
  next
    case False
    then have "n div 365 \<le> 0" using pos_imp_zdiv_neg_iff[of 365 n] by simp
    then have "dayFromYear (1970 + n div 365) \<le> 365 * (n div 365)"
      by (rule dayFromYear_lower)
    moreover have "365 * (n div 365) \<le> n"
      using mult_div_mod_eq[of 365 n] pos_mod_sign[of 365 n] by linarith
    ultimately show ?thesis using False by simp
  qed
  then show ?thesis unfolding yearFromDay_def by (rule findYear_bounds)
qed

lemma yearFromDay_unique:
  assumes "dayFromYear y \<le> n" and "n < dayFromYear (y + 1)"
  shows "yearFromDay n = y"
proof (rule ccontr)
  assume ne: "yearFromDay n \<noteq> y"
  note b = yearFromDay_bounds[of n]
  show False
  proof (cases "yearFromDay n < y")
    case True
    then have "dayFromYear (yearFromDay n + 1) \<le> dayFromYear y"
      by (intro dayFromYear_mono) simp
    then show False using b assms by linarith
  next
    case False
    with ne have "dayFromYear (y + 1) \<le> dayFromYear (yearFromDay n)"
      by (intro dayFromYear_mono) simp
    then show False using b assms by linarith
  qed
qed


lemma dayWithinYear_bounds:
  "0 \<le> dayWithinYear n \<and> dayWithinYear n < (if leapYear (yearFromDay n) then 366 else 365)"
  using yearFromDay_bounds[of n] dayFromYear_Suc[of "yearFromDay n"]
  by (simp add: dayWithinYear_def split: if_splits)

lemma monthFromDay_range: "0 \<le> monthFromDay n \<and> monthFromDay n \<le> 11"
  by (simp add: monthFromDay_def Let_def)

lemma makeDay_month: "0 \<le> m \<Longrightarrow> m \<le> 11 \<Longrightarrow>
  makeDay y m d = dayFromYear y + monthStart (leapYear y) m + d - 1"
  by (simp add: makeDay_def Let_def)

lemma makeDay_fields: "makeDay (getFullYear n) (getMonth n) (getDate n + k) = n + k"
  using monthFromDay_range[of n]
  by (simp add: makeDay_month getFullYear_def getMonth_def getDate_def dateFromDay_def
      dayWithinYear_def)

lemma setDate_add: "setDate n (getDate n + k) = n + k"
  by (simp add: setDate_def makeDay_fields)

lemma month_cases: "0 \<le> m \<Longrightarrow> m \<le> 11 \<Longrightarrow>
  m = 0 \<or> m = 1 \<or> m = 2 \<or> m = 3 \<or> m = 4 \<or> m = 5 \<or> m = 6 \<or> m = 7 \<or> m = 8 \<or> m = 9
  \<or> m = 10 \<or> m = (11::int)"
  by arith

lemma fields_makeDay:
  assumes "validDate y (m + 1) d"
  shows "getFullYear (makeDay y m d) = y \<and> getMonth (makeDay y m d) = m
    \<and> getDate (makeDay y m d) = d"
proof -
  from assms have m: "0 \<le> m" "m \<le> 11" and d: "1 \<le> d" "d \<le> daysInMonth y (m + 1)"
    by (simp_all add: validDate_def)
  define n where "n = makeDay y m d"
  have n: "n = dayFromYear y + monthStart (leapYear y) m + d - 1"
    unfolding n_def using m by (rule makeDay_month)
  have w: "0 \<le> monthStart (leapYear y) m + d - 1 \<and>
      monthStart (leapYear y) m + d - 1 < (if leapYear y then 366 else 365)"
    using month_cases[OF m] d
    by (elim disjE) (simp_all add: monthStart_def daysInMonth_def split: if_splits)
  have yr: "yearFromDay n = y"
    by (rule yearFromDay_unique) (use n w in \<open>simp_all add: dayFromYear_Suc split: if_splits\<close>)
  have dw: "dayWithinYear n = monthStart (leapYear y) m + d - 1"
    unfolding dayWithinYear_def yr by (simp add: n)
  have mo: "monthFromDay n = m"
    unfolding monthFromDay_def yr dw Let_def
    using month_cases[OF m] d
    by (elim disjE) (simp_all add: monthStart_def daysInMonth_def split: if_splits)
  have "dateFromDay n = d"
    unfolding dateFromDay_def yr mo dw by simp
  with yr mo show ?thesis
    by (simp add: getFullYear_def getMonth_def getDate_def n_def)
qed

lemma fields_valid:
  "validDate (getFullYear n) (getMonth n + 1) (getDate n)"
proof -
  define dw where "dw = dayWithinYear n"
  define lp where "lp = leapYear (yearFromDay n)"
  have b: "0 \<le> dw" "dw < (if lp then 366 else 365)"
    using dayWithinYear_bounds[of n] by (simp_all add: dw_def lp_def)
  define mo where "mo = monthFromDay n"
  have mo: "mo = (let d = dw; l = (if lp then 1 else 0) in
      if d < 31 then 0 else if d < 59 + l then 1 else if d < 90 + l then 2
      else if d < 120 + l then 3 else if d < 151 + l then 4 else if d < 181 + l then 5
      else if d < 212 + l then 6 else if d < 243 + l then 7 else if d < 273 + l then 8
      else if d < 304 + l then 9 else if d < 334 + l then 10 else 11)"
    unfolding mo_def monthFromDay_def dw_def lp_def by (rule refl)
  have r: "0 \<le> mo" "mo \<le> 11"
    using monthFromDay_range[of n] by (simp_all add: mo_def)
  have "1 \<le> dw - monthStart lp mo + 1 \<and> dw - monthStart lp mo + 1 \<le> daysInMonth (yearFromDay n) (mo + 1)"
    using month_cases[OF r]
  proof (elim disjE)
    assume "mo = 0" then show ?thesis using mo b
      by (simp add: Let_def monthStart_def daysInMonth_def split: if_splits)
  next
    assume "mo = 1" then show ?thesis using mo b
      by (simp add: Let_def monthStart_def daysInMonth_def lp_def[symmetric] split: if_splits)
  next
    assume "mo = 2" then show ?thesis using mo b
      by (simp add: Let_def monthStart_def daysInMonth_def split: if_splits)
  next
    assume "mo = 3" then show ?thesis using mo b
      by (simp add: Let_def monthStart_def daysInMonth_def split: if_splits)
  next
    assume "mo = 4" then show ?thesis using mo b
      by (simp add: Let_def monthStart_def daysInMonth_def split: if_splits)
  next
    assume "mo = 5" then show ?thesis using mo b
      by (simp add: Let_def monthStart_def daysInMonth_def split: if_splits)
  next
    assume "mo = 6" then show ?thesis using mo b
      by (simp add: Let_def monthStart_def daysInMonth_def split: if_splits)
  next
    assume "mo = 7" then show ?thesis using mo b
      by (simp add: Let_def monthStart_def daysInMonth_def split: if_splits)
  next
    assume "mo = 8" then show ?thesis using mo b
      by (simp add: Let_def monthStart_def daysInMonth_def split: if_splits)
  next
    assume "mo = 9" then show ?thesis using mo b
      by (simp add: Let_def monthStart_def daysInMonth_def split: if_splits)
  next
    assume "mo = 10" then show ?thesis using mo b
      by (simp add: Let_def monthStart_def daysInMonth_def split: if_splits)
  next
    assume "mo = 11" then show ?thesis using mo b
      by (simp add: Let_def monthStart_def daysInMonth_def split: if_splits)
  qed
  then show ?thesis using r
    by (simp add: validDate_def getFullYear_def getMonth_def getDate_def dateFromDay_def
        dw_def lp_def mo_def)
qed



section \<open>Facts about strings of digits\<close>

declare digits.simps [simp del]
declare findYear.simps [simp del]

lemma digits_isDigit: "0 \<le> n \<Longrightarrow> list_all isDigit (digits n)"
proof (induction n rule: digits.induct)
  case (1 n)
  show ?case
  proof (cases "n < 10")
    case True
    then show ?thesis using "1.prems" by (subst digits.simps) (simp add: isDigit_def)
  next
    case False
    have "0 \<le> n mod 10" "n mod 10 < 10" by simp_all
    then have "isDigit (48 + n mod 10)" unfolding isDigit_def by linarith
    moreover have "0 \<le> n div 10" using "1.prems" by simp
    ultimately show ?thesis using False "1.IH" by (subst digits.simps) simp
  qed
qed

lemma digits_not_Nil: "digits n \<noteq> []"
  by (subst digits.simps) simp

lemma decimalValue_snoc: "decimalValue (s @ [c]) = 10 * decimalValue s + (c - 48)"
  by (simp add: decimalValue_def)

lemma decimalValue_digits: "decimalValue (digits n) = n"
proof (induction n rule: digits.induct)
  case (1 n)
  show ?case
  proof (cases "n < 10")
    case True
    then show ?thesis by (subst digits.simps) (simp add: decimalValue_def)
  next
    case False
    then show ?thesis using "1.IH"
      by (subst digits.simps) (simp add: decimalValue_snoc)
  qed
qed

lemma decimalValue_zeros: "decimalValue (replicate k 48 @ s) = decimalValue s"
proof -
  have "foldl (\<lambda>a c. 10 * a + (c - 48)) 0 (replicate k 48) = (0::int)"
    by (induction k) simp_all
  then show ?thesis by (simp add: decimalValue_def)
qed

lemma isDigit_not_space: "isDigit c \<Longrightarrow> \<not> isWhiteSpace c"
  by (auto simp: isDigit_def isWhiteSpace_def)

lemma trim_digits:
  assumes "list_all isDigit s"
  shows "trim s = s"
proof (cases "s = []")
  case True
  then show ?thesis by (simp add: trim_def)
next
  case False
  then have "hd s \<in> set s" and "last s \<in> set s" by simp_all
  with assms have h: "\<not> isWhiteSpace (hd s)" and l: "\<not> isWhiteSpace (last s)"
    by (auto simp: list_all_iff dest: isDigit_not_space)
  from h have a: "dropWhile isWhiteSpace s = s"
    by (simp add: dropWhile_eq_self_iff)
  from l False have "dropWhile isWhiteSpace (rev s) = rev s"
    by (simp add: dropWhile_eq_self_iff hd_rev)
  with a show ?thesis by (simp add: trim_def)
qed

lemma js_Number_digits:
  "list_all isDigit s \<Longrightarrow> s \<noteq> [] \<Longrightarrow> js_Number s = Some (decimalValue s)"
  by (simp add: js_Number_def trim_digits)

lemma padded_isDigit: "0 \<le> n \<Longrightarrow> list_all isDigit (padStart k 48 (digits n))"
  using digits_isDigit[of n] by (auto simp: padStart_def list_all_iff isDigit_def)

lemma js_Number_padded:
  assumes "0 \<le> i"
  shows "js_Number (padStart k 48 (js_String i)) = Some i"
proof -
  have s: "js_String i = digits i" using assms by (simp add: js_String_def)
  have "padStart k 48 (digits i) \<noteq> []" by (simp add: padStart_def digits_not_Nil)
  then have "js_Number (padStart k 48 (digits i))
      = Some (decimalValue (padStart k 48 (digits i)))"
    using padded_isDigit[OF assms] by (rule js_Number_digits[rotated])
  also have "decimalValue (padStart k 48 (digits i)) = i"
    by (simp add: padStart_def decimalValue_zeros decimalValue_digits)
  finally show ?thesis by (simp add: s)
qed

lemma isDigit_no_slash: "list_all isDigit s \<Longrightarrow> 47 \<notin> set s"
  by (auto simp: list_all_iff isDigit_def)

lemma js_split_field: "sep \<notin> set a \<Longrightarrow> js_split sep (a @ sep # r) = a # js_split sep r"
  by (induction a) simp_all

lemma js_split_last: "sep \<notin> set a \<Longrightarrow> js_split sep a = [a]"
  by (induction a) simp_all

lemma js_split_three:
  "sep \<notin> set a \<Longrightarrow> sep \<notin> set b \<Longrightarrow> sep \<notin> set c \<Longrightarrow>
   js_split sep (a @ [sep] @ b @ [sep] @ c) = [a, b, c]"
  by (simp add: js_split_field js_split_last)

lemma parseBRDate_fields:
  assumes "0 \<le> d" "0 \<le> m" "0 \<le> y"
  shows "parseBRDate (padStart 2 48 (js_String d) @ [47] @ padStart 2 48 (js_String m) @ [47]
           @ padStart k 48 (js_String y))
         = newDate (Some y) (Some (m - 1)) (Some d)"
proof -
  have p: "list_all isDigit (padStart j 48 (js_String i))" if "0 \<le> i" for i j
    using that padded_isDigit by (simp add: js_String_def)
  have "js_split 47 (padStart 2 48 (js_String d) @ [47] @ padStart 2 48 (js_String m) @ [47]
           @ padStart k 48 (js_String y))
        = [padStart 2 48 (js_String d), padStart 2 48 (js_String m), padStart k 48 (js_String y)]"
    using assms by (intro js_split_three isDigit_no_slash p)
  then show ?thesis
    using assms by (simp add: parseBRDate_def element_def js_Number_padded)
qed


lemma digits_length4: "1000 \<le> n \<Longrightarrow> 4 \<le> length (digits n)"
proof -
  assume n: "1000 \<le> n"
  have n1: "\<not> n < 10" "\<not> n div 10 < 10" "\<not> n div 10 div 10 < 10"
    using n by arith+
  have a: "digits n = digits (n div 10) @ [48 + n mod 10]"
    using digits.simps[of n] n1 by simp
  have b: "digits (n div 10) = digits (n div 10 div 10) @ [48 + n div 10 mod 10]"
    using digits.simps[of "n div 10"] n1 by simp
  have c: "digits (n div 10 div 10) = digits (n div 10 div 10 div 10) @ [48 + n div 10 div 10 mod 10]"
    using digits.simps[of "n div 10 div 10"] n1 by simp
  have "1 \<le> length (digits (n div 10 div 10 div 10))"
    using digits_not_Nil[of "n div 10 div 10 div 10"] by (simp add: Suc_le_eq)
  then show ?thesis unfolding a b c by simp
qed

lemma padStart4_year: "1000 \<le> y \<Longrightarrow> padStart 4 48 (js_String y) = js_String y"
  using digits_length4[of y] by (simp add: padStart_def js_String_def)

lemma yearFromDay_ge: "dayFromYear y \<le> n \<Longrightarrow> y \<le> yearFromDay n"
proof (rule ccontr)
  assume a: "dayFromYear y \<le> n" and "\<not> y \<le> yearFromDay n"
  then have "dayFromYear (yearFromDay n + 1) \<le> dayFromYear y"
    by (intro dayFromYear_mono) simp
  then show False using a yearFromDay_bounds[of n] by linarith
qed

lemma yearFromDay_less: "n < dayFromYear y \<Longrightarrow> yearFromDay n < y"
proof (rule ccontr)
  assume a: "n < dayFromYear y" and "\<not> yearFromDay n < y"
  then have "dayFromYear y \<le> dayFromYear (yearFromDay n)"
    by (intro dayFromYear_mono) simp
  then show False using a yearFromDay_bounds[of n] by linarith
qed

lemma fields_nonneg:
  assumes "dayFromYear 0 \<le> n"
  shows "0 \<le> getDate n \<and> 0 \<le> getMonth n + 1 \<and> 0 \<le> getFullYear n"
  using fields_valid[of n] yearFromDay_ge[OF assms]
  by (simp add: validDate_def getFullYear_def)

section \<open>Parsing and formatting dates\<close>

lemma dayFromYear_100: "dayFromYear 100 = - 683003" by (simp add: dayFromYear_def)
lemma dayFromYear_1000: "dayFromYear 1000 = - 354285" by (simp add: dayFromYear_def)
lemma dayFromYear_10000: "dayFromYear 10000 = 2932897" by (simp add: dayFromYear_def)

lemma parse_valid:
  assumes v: "validDate y m d" and y: "100 \<le> y" "y \<le> 9999"
  shows "parseBRDate (padStart 2 48 (js_String d) @ [47] @ padStart 2 48 (js_String m) @ [47]
           @ padStart k 48 (js_String y)) = Some (makeDay y (m - 1) d)"
    and "getFullYear (makeDay y (m - 1) d) = y"
    and "getMonth (makeDay y (m - 1) d) + 1 = m"
    and "getDate (makeDay y (m - 1) d) = d"
proof -
  from v have nn: "0 \<le> d" "0 \<le> m" by (simp_all add: validDate_def)
  from v have v': "validDate y (m - 1 + 1) d" by simp
  note f = fields_makeDay[OF v']
  show "getFullYear (makeDay y (m - 1) d) = y" "getMonth (makeDay y (m - 1) d) + 1 = m"
    "getDate (makeDay y (m - 1) d) = d" using f by simp_all
  from f have yr: "yearFromDay (makeDay y (m - 1) d) = y" by (simp add: getFullYear_def)
  note b = yearFromDay_bounds[of "makeDay y (m - 1) d", unfolded yr]
  have "dayFromYear 100 \<le> dayFromYear y" "dayFromYear (y + 1) \<le> dayFromYear 10000"
    using y by (intro dayFromYear_mono; simp)+
  with b have "\<bar>makeDay y (m - 1) d\<bar> \<le> 100000000"
    unfolding dayFromYear_100 dayFromYear_10000 by linarith
  then show "parseBRDate (padStart 2 48 (js_String d) @ [47] @ padStart 2 48 (js_String m) @ [47]
           @ padStart k 48 (js_String y)) = Some (makeDay y (m - 1) d)"
    using nn y parseBRDate_fields[of d m y k] by (simp add: newDate_def timeClip_def)
qed

lemma parse_day:
  assumes "dayFromYear 100 \<le> n" "n < dayFromYear 10000"
  shows "parseBRDate (padStart 2 48 (js_String (getDate n)) @ [47]
           @ padStart 2 48 (js_String (getMonth n + 1)) @ [47]
           @ padStart k 48 (js_String (getFullYear n))) = Some n"
proof -
  have y: "100 \<le> getFullYear n" "getFullYear n \<le> 9999"
    using yearFromDay_ge[OF assms(1)] yearFromDay_less[OF assms(2)]
    by (simp_all add: getFullYear_def)
  have "makeDay (getFullYear n) (getMonth n + 1 - 1) (getDate n) = n"
    using makeDay_fields[of n 0] by simp
  then show ?thesis using parse_valid(1)[OF fields_valid[of n] y, of k] by simp
qed

lemma getTodayBR_canon:
  assumes "dayFromYear 1000 \<le> hoje"
  shows "getTodayBR hoje = canonOfDay hoje"
proof -
  have "1000 \<le> getFullYear hoje"
    using yearFromDay_ge[OF assms] by (simp add: getFullYear_def)
  then show ?thesis
    by (simp add: getTodayBR_def canonOfDay_def canonBR_def padStart4_year js_def)
qed

text \<open>
  C10 (as amended). For a zero-padded \<open>DD/MM/YYYY\<close> string of a valid calendar date with a
  year from 1000 to 9999, \<open>brToIsoDateString\<close> after \<open>parseBRDate\<close> gives the \<open>YYYY-MM-DD\<close>
  string with the same day, month and year. For a year from 100 to 999 the day and month
  are the same and the year is written without leading zeros. \<open>getTodayBR\<close> gives the
  zero-padded \<open>DD/MM/YYYY\<close> string of the current day, a valid calendar date, when the
  current year is from 1000 to 9999.
\<close>

theorem date_roundtrip:
  "(validDate y m d \<and> 1000 \<le> y \<and> y \<le> 9999 \<longrightarrow>
      brToIsoDateString (canonBR d m y) = canonISO y m d)
   \<and> (validDate y m d \<and> 100 \<le> y \<and> y \<le> 999 \<longrightarrow>
      brToIsoDateString (canonBR d m y)
        = js_String y @ [45] @ padStart 2 48 (js_String m) @ [45] @ padStart 2 48 (js_String d))
   \<and> (dayFromYear 1000 \<le> hoje \<and> hoje < dayFromYear 10000 \<longrightarrow>
      getTodayBR hoje = canonBR (getDate hoje) (getMonth hoje + 1) (getFullYear hoje)
      \<and> validDate (getFullYear hoje) (getMonth hoje + 1) (getDate hoje)
      \<and> 1000 \<le> getFullYear hoje \<and> getFullYear hoje \<le> 9999)"
proof (intro conjI impI)
  assume a: "validDate y m d \<and> 1000 \<le> y \<and> y \<le> 9999"
  then have v: "validDate y m d" and y: "100 \<le> y" "y \<le> 9999" by simp_all
  show "brToIsoDateString (canonBR d m y) = canonISO y m d"
    using a parse_valid(1)[OF v y, of 4] parse_valid(2-4)[OF v y]
    by (simp add: brToIsoDateString_def canonBR_def canonISO_def padStart4_year js_def)
next
  assume a: "validDate y m d \<and> 100 \<le> y \<and> y \<le> 999"
  then have v: "validDate y m d" and y: "100 \<le> y" "y \<le> 9999" by simp_all
  show "brToIsoDateString (canonBR d m y)
        = js_String y @ [45] @ padStart 2 48 (js_String m) @ [45] @ padStart 2 48 (js_String d)"
    using parse_valid(1)[OF v y, of 4] parse_valid(2-4)[OF v y]
    by (simp add: brToIsoDateString_def canonBR_def js_def)
next
  assume a: "dayFromYear 1000 \<le> hoje \<and> hoje < dayFromYear 10000"
  then show "getTodayBR hoje = canonBR (getDate hoje) (getMonth hoje + 1) (getFullYear hoje)"
    using getTodayBR_canon[of hoje] by (simp add: canonOfDay_def)
  show "validDate (getFullYear hoje) (getMonth hoje + 1) (getDate hoje)"
    by (rule fields_valid)
  show "1000 \<le> getFullYear hoje"
    using a yearFromDay_ge[of 1000 hoje] by (simp add: getFullYear_def)
  show "getFullYear hoje \<le> 9999"
    using a yearFromDay_less[of hoje 10000] by (simp add: getFullYear_def)
qed


theorem date_roundtrip_witness:
  "validDate 2026 3 5 \<and> brToIsoDateString (canonBR 5 3 2026) = canonISO 2026 3 5
   \<and> validDate 999 12 31 \<and> brToIsoDateString (canonBR 31 12 999) = js ''999-12-31''
   \<and> dayFromYear 1000 \<le> 20458 \<and> 20458 < dayFromYear 10000
   \<and> getTodayBR 20458 = canonBR 5 1 2026"
proof -
  have v1: "validDate 2026 3 5" and v2: "validDate 999 12 31"
    by code_simp+
  have h: "dayFromYear 1000 \<le> 20458" "20458 < dayFromYear 10000"
    by code_simp+
  have f: "getDate 20458 = 5" "getMonth 20458 = 0" "getFullYear 20458 = 2026"
    by code_simp+
  have s: "js_String 999 @ [45] @ padStart 2 48 (js_String 12) @ [45] @ padStart 2 48 (js_String 31)
      = js ''999-12-31''"
    by code_simp
  show ?thesis
    using date_roundtrip[of 2026 3 5 20458] date_roundtrip[of 999 12 31 20458] v1 v2 h f s
    by simp
qed

text \<open>
  The claim as stated fails for the years 0000 to 0099, which \<open>new Date\<close> reads as 1900 to
  1999: the string \<open>01/01/0050\<close> gives \<open>1950-01-01\<close>.
\<close>

theorem date_roundtrip_counterexample:
  "validDate 50 1 1 \<and> canonBR 1 1 50 = js ''01/01/0050''
   \<and> brToIsoDateString (canonBR 1 1 50) = js ''1950-01-01''
   \<and> canonISO 50 1 1 = js ''0050-01-01''
   \<and> brToIsoDateString (canonBR 1 1 50) \<noteq> canonISO 50 1 1"
  by code_simp



section \<open>The range of target dates\<close>

text \<open>The loop of \<open>gerarDatasProximosDoisMeses\<close>: \<open>current\<close> and \<open>fim\<close> are Dates,
  \<open>datas\<close> is the array built so far.\<close>

function gerar_loop :: "int \<Rightarrow> int \<Rightarrow> jsstring list \<Rightarrow> jsstring list" where
  "gerar_loop current fim datas =
     (if current \<le> fim then
        (let dd = padStart 2 48 (js_String (getDate current));
             mm = padStart 2 48 (js_String (getMonth current + 1));
             yyyy = getFullYear current;
             dataBR = dd @ js ''/'' @ mm @ js ''/'' @ js_String yyyy;
             datas' = (if isWeekdayBR dataBR then datas @ [dataBR] else datas)
         in gerar_loop (setDate current (getDate current + 1)) fim datas')
      else datas)"
  by pat_completeness auto
termination
  by (relation "measure (\<lambda>(current, fim, datas). nat (fim + 1 - current))")
     (simp_all add: setDate_add)

declare gerar_loop.simps [simp del]

definition gerarDatasProximosDoisMeses :: "int \<Rightarrow> jsstring list" where
  "gerarDatasProximosDoisMeses hoje =
     (let current = setDate hoje (getDate hoje + 7);
          fim1 = setMonth hoje (getMonth hoje + 2);
          fim = setDate fim1 (getDate fim1 + 10)
      in gerar_loop current fim [])"

text \<open>The last day of the range: today, two months on, ten days on.\<close>

definition fimDoPeriodo :: "int \<Rightarrow> int" where
  "fimDoPeriodo hoje = setMonth hoje (getMonth hoje + 2) + 10"

definition businessDay :: "int \<Rightarrow> bool" where
  "businessDay n = (1 \<le> weekDay n \<and> weekDay n \<le> 5)"

lemma weekDay_range: "0 \<le> weekDay n \<and> weekDay n \<le> 6"
  by (simp add: weekDay_def)

lemma businessDay_iff: "businessDay n = (weekDay n \<noteq> 0 \<and> weekDay n \<noteq> 6)"
  using weekDay_range[of n] by (auto simp: businessDay_def)

lemma canonOfDay_eq:
  assumes "dayFromYear 1000 \<le> n"
  shows "padStart 2 48 (js_String (getDate n)) @ js ''/''
           @ padStart 2 48 (js_String (getMonth n + 1)) @ js ''/'' @ js_String (getFullYear n)
         = canonOfDay n"
  using getTodayBR_canon[OF assms] by (simp add: getTodayBR_def)

lemma parse_canonOfDay:
  assumes "dayFromYear 100 \<le> n" "n < dayFromYear 10000"
  shows "parseBRDate (canonOfDay n) = Some n"
  using parse_day[OF assms, of 4] by (simp add: canonOfDay_def canonBR_def)

lemma isWeekdayBR_canon:
  assumes "dayFromYear 100 \<le> n" "n < dayFromYear 10000"
  shows "isWeekdayBR (canonOfDay n) = businessDay n"
  by (simp add: isWeekdayBR_def parse_canonOfDay[OF assms] getDay_def businessDay_iff Let_def)

lemma gerar_loop_eq:
  "dayFromYear 1000 \<le> current \<Longrightarrow> fim < dayFromYear 10000 \<Longrightarrow>
   gerar_loop current fim datas
     = datas @ map canonOfDay (filter businessDay [current..fim])"
proof (induction current fim datas rule: gerar_loop.induct)
  case (1 current fim datas)
  show ?case
  proof (cases "current \<le> fim")
    case False
    then show ?thesis by (subst gerar_loop.simps) simp
  next
    case True
    have s: "padStart 2 48 (js_String (getDate current)) @ js ''/''
           @ padStart 2 48 (js_String (getMonth current + 1)) @ js ''/''
           @ js_String (getFullYear current) = canonOfDay current"
      using "1.prems"(1) by (rule canonOfDay_eq)
    have w: "isWeekdayBR (canonOfDay current) = businessDay current"
      using "1.prems" True dayFromYear_1000 dayFromYear_100
      by (intro isWeekdayBR_canon) simp_all
    have n: "setDate current (getDate current + 1) = current + 1"
      by (rule setDate_add)
    have u: "[current..fim] = current # [current + 1..fim]"
      using True by (simp add: upto_rec1)
    show ?thesis
      using "1.IH" "1.prems" True
      by (subst gerar_loop.simps) (simp add: Let_def s w n u)
  qed
qed

lemma gerar_eq:
  assumes "dayFromYear 1000 \<le> hoje + 7" "fimDoPeriodo hoje < dayFromYear 10000"
  shows "gerarDatasProximosDoisMeses hoje
     = map canonOfDay (filter businessDay [hoje + 7..fimDoPeriodo hoje])"
  using assms
  by (simp add: gerarDatasProximosDoisMeses_def Let_def setDate_add fimDoPeriodo_def gerar_loop_eq)


text \<open>
  C2 (as amended). For a current day \<open>hoje\<close> in the year 1000 or later, with the range ending
  before the year 10000: every string produced by \<open>gerarDatasProximosDoisMeses\<close> is the
  canonical string of a day \<open>n\<close>, and parses back to it, with \<open>n\<close> from today plus 7 days
  to today plus 2 months plus 10 days, both ends included, and a weekday from Monday to
  Friday; the days are strictly ascending and no string is produced twice.
\<close>

theorem gerarDatas_range:
  assumes "dayFromYear 1000 \<le> hoje" and "fimDoPeriodo hoje < dayFromYear 10000"
  shows "\<exists>ns. gerarDatasProximosDoisMeses hoje = map canonOfDay ns
     \<and> map parseBRDate (gerarDatasProximosDoisMeses hoje) = map Some ns
     \<and> (\<forall>n \<in> set ns. hoje + 7 \<le> n \<and> n \<le> fimDoPeriodo hoje \<and> businessDay n)
     \<and> sorted_wrt (<) ns
     \<and> distinct (gerarDatasProximosDoisMeses hoje)"
proof -
  define ns where "ns = filter businessDay [hoje + 7..fimDoPeriodo hoje]"
  have g: "gerarDatasProximosDoisMeses hoje = map canonOfDay ns"
    unfolding ns_def using assms by (intro gerar_eq) simp_all
  have r: "hoje + 7 \<le> n \<and> n \<le> fimDoPeriodo hoje \<and> businessDay n" if "n \<in> set ns" for n
    using that by (simp add: ns_def)
  have p: "parseBRDate (canonOfDay n) = Some n" if "n \<in> set ns" for n
    using r[OF that] assms dayFromYear_100 dayFromYear_1000
    by (intro parse_canonOfDay) simp_all
  have m: "map parseBRDate (map canonOfDay ns) = map Some ns"
    unfolding map_map by (rule map_cong[OF refl]) (simp add: p)
  have "sorted_wrt (<) [hoje + 7..fimDoPeriodo hoje]"
    by (rule sorted_wrt_upto)
  then have s: "sorted_wrt (<) ns"
    unfolding ns_def by (rule sorted_wrt_filter)
  have "distinct ns"
    by (rule conjunct2[OF iffD1[OF strict_sorted_iff s]])
  moreover have "inj_on canonOfDay (set ns)"
  proof (rule inj_onI)
    fix a b assume a: "a \<in> set ns" and b: "b \<in> set ns"
      and e: "canonOfDay a = canonOfDay b"
    have "Some a = parseBRDate (canonOfDay a)" by (rule p[OF a, symmetric])
    also have "\<dots> = Some b" unfolding e by (rule p[OF b])
    finally show "a = b" by (rule option.inject[THEN iffD1])
  qed
  ultimately have d: "distinct (map canonOfDay ns)"
    by (simp add: distinct_map)
  show ?thesis
  proof (intro exI[of _ ns] conjI ballI)
    show "gerarDatasProximosDoisMeses hoje = map canonOfDay ns" by (rule g)
    show "map parseBRDate (gerarDatasProximosDoisMeses hoje) = map Some ns"
      unfolding g by (rule m)
    show "sorted_wrt (<) ns" by (rule s)
    show "distinct (gerarDatasProximosDoisMeses hoje)" unfolding g by (rule d)
  qed (use r in simp_all)
qed


theorem gerarDatas_range_witness:
  "dayFromYear 1000 \<le> 20459 \<and> fimDoPeriodo 20459 < dayFromYear 10000
   \<and> (\<exists>ns. gerarDatasProximosDoisMeses 20459 = map canonOfDay ns
     \<and> map parseBRDate (gerarDatasProximosDoisMeses 20459) = map Some ns
     \<and> (\<forall>n \<in> set ns. 20459 + 7 \<le> n \<and> n \<le> fimDoPeriodo 20459 \<and> businessDay n)
     \<and> sorted_wrt (<) ns
     \<and> distinct (gerarDatasProximosDoisMeses 20459))"
proof -
  have h: "dayFromYear 1000 \<le> 20459" "fimDoPeriodo 20459 < dayFromYear 10000"
    by code_simp+
  show ?thesis
    using h gerarDatas_range[OF h] by blast
qed

text \<open>
  The claim as stated asks for days strictly between the two ends. On Tuesday 06/01/2026
  (day 20459) the first string produced is today plus 7 days and the last one is the end
  of the range itself.
\<close>

theorem gerarDatas_range_counterexample:
  "js ''13/01/2026'' \<in> set (gerarDatasProximosDoisMeses 20459)
   \<and> parseBRDate (js ''13/01/2026'') = Some (20459 + 7)
   \<and> js ''16/03/2026'' \<in> set (gerarDatasProximosDoisMeses 20459)
   \<and> parseBRDate (js ''16/03/2026'') = Some (fimDoPeriodo 20459)"
proof -
  have h: "dayFromYear 1000 \<le> 20459 + 7" "fimDoPeriodo 20459 < dayFromYear 10000"
    by code_simp+
  have f: "fimDoPeriodo 20459 = 20528"
    by code_simp
  have g: "set (gerarDatasProximosDoisMeses 20459)
      = canonOfDay ` {n \<in> {20459 + 7..20528}. businessDay n}"
    unfolding gerar_eq[OF h] f by (simp only: set_map set_filter set_upto)
  have b: "businessDay 20466" "businessDay 20528"
    by code_simp+
  have c: "canonOfDay 20466 = js ''13/01/2026''" "canonOfDay 20528 = js ''16/03/2026''"
    by code_simp+
  have p: "parseBRDate (js ''13/01/2026'') = Some 20466"
    "parseBRDate (js ''16/03/2026'') = Some 20528"
    by code_simp+
  have "canonOfDay 20466 \<in> set (gerarDatasProximosDoisMeses 20459)"
    unfolding g using b by (intro imageI) simp
  moreover have "canonOfDay 20528 \<in> set (gerarDatasProximosDoisMeses 20459)"
    unfolding g using b by (intro imageI) simp
  ultimately show ?thesis
    unfolding c f p by simp
qed


section \<open>The CSV file\<close>

text \<open>A value handed to \<open>csvEscape\<close> is a string, or \<open>None\<close> for \<open>null\<close> and \<open>undefined\<close>.\<close>

definition csvEscape :: "jsstring option \<Rightarrow> jsstring" where
  "csvEscape v =
     (case v of
        None \<Rightarrow> []
      | Some s \<Rightarrow>
          if list_ex (\<lambda>c. c = 59 \<or> c = 34 \<or> c = 10 \<or> c = 13) s
          then js ''\"'' @ concat (map (\<lambda>c. if c = 34 then js ''\"\"'' else [c]) s) @ js ''\"''
          else s)"


text \<open>A row is an object: a map from column names to values. The file system is a map
  from paths to contents; \<open>writeFileSync\<close> sets the content of one path.\<close>

type_synonym row = "jsstring \<rightharpoonup> jsstring"

definition writeCsv ::
  "(jsstring \<rightharpoonup> jsstring) \<Rightarrow> jsstring \<Rightarrow> jsstring list \<Rightarrow> row list \<Rightarrow> (jsstring \<rightharpoonup> jsstring)" where
  "writeCsv fs filePath headers rows =
     (let bom = [65279];
          lines = [js_join (js '';'') (map (\<lambda>h. csvEscape (Some h)) headers)]
                  @ map (\<lambda>row. js_join (js '';'') (map (\<lambda>h. csvEscape (row h)) headers)) rows
      in fs(filePath \<mapsto> bom @ js_join [10] lines))"

text \<open>
  A reader of the file, to say what the file contains: fields are separated by \<open>;\<close> and
  records by a line feed; a field that starts with a double quote runs to the closing
  double quote, and a doubled double quote inside it stands for one.
\<close>

datatype csvMode = Plain | Quoted | QuoteSeen

fun csvScan :: "csvMode \<Rightarrow> jsstring \<Rightarrow> jsstring list \<Rightarrow> jsstring \<Rightarrow> jsstring list list" where
  "csvScan mode field row [] = [row @ [field]]"
| "csvScan Plain field row (c # cs) =
     (if c = 59 then csvScan Plain [] (row @ [field]) cs
      else if c = 10 then (row @ [field]) # csvScan Plain [] [] cs
      else if c = 34 \<and> field = [] then csvScan Quoted [] row cs
      else csvScan Plain (field @ [c]) row cs)"
| "csvScan Quoted field row (c # cs) =
     (if c = 34 then csvScan QuoteSeen field row cs
      else csvScan Quoted (field @ [c]) row cs)"
| "csvScan QuoteSeen field row (c # cs) =
     (if c = 34 then csvScan Quoted (field @ [34]) row cs
      else if c = 59 then csvScan Plain [] (row @ [field]) cs
      else if c = 10 then (row @ [field]) # csvScan Plain [] [] cs
      else csvScan Plain (field @ [c]) row cs)"

text \<open>The text of a value: the empty string for \<open>null\<close> and \<open>undefined\<close>.\<close>

definition valueStr :: "jsstring option \<Rightarrow> jsstring" where
  "valueStr v = (case v of None \<Rightarrow> [] | Some s \<Rightarrow> s)"

text \<open>The value contains the delimiter, a double quote, a line feed or a carriage return.\<close>

definition needsQuotes :: "jsstring \<Rightarrow> bool" where
  "needsQuotes s = (59 \<in> set s \<or> 34 \<in> set s \<or> 10 \<in> set s \<or> 13 \<in> set s)"

text \<open>Each double quote written twice.\<close>

fun doubled :: "jsstring \<Rightarrow> jsstring" where
  "doubled [] = []"
| "doubled (c # cs) = (if c = 34 then 34 # 34 # doubled cs else c # doubled cs)"

lemma csvEscape_Some:
  "csvEscape (Some s) = (if needsQuotes s then [34] @ doubled s @ [34] else s)"
proof -
  have q: "js ''\"'' = [34]" "js ''\"\"'' = [34, 34]"
    by (simp_all add: js_def)
  have n: "list_ex (\<lambda>c. c = 59 \<or> c = 34 \<or> c = 10 \<or> c = 13) s = needsQuotes s"
    by (auto simp: needsQuotes_def list_ex_iff)
  have d: "concat (map (\<lambda>c. if c = 34 then [34, 34] else [c]) s) = doubled s"
    by (induction s) simp_all
  show ?thesis
    unfolding csvEscape_def q using n d by simp
qed

lemma csvEscape_None: "csvEscape None = []"
  by (simp add: csvEscape_def)

lemma scan_plain:
  "59 \<notin> set v \<Longrightarrow> 10 \<notin> set v \<Longrightarrow> 34 \<notin> set v \<Longrightarrow>
   csvScan Plain f row (v @ rest) = csvScan Plain (f @ v) row rest"
  by (induction v arbitrary: f) simp_all

lemma scan_quoted:
  "csvScan Quoted f row (doubled v @ 34 # rest) = csvScan QuoteSeen (f @ v) row rest"
  by (induction v arbitrary: f) simp_all

lemma scan_field:
  "csvScan Plain [] row (csvEscape v @ rest)
     = (if needsQuotes (valueStr v) then csvScan QuoteSeen (valueStr v) row rest
        else csvScan Plain (valueStr v) row rest)"
proof (cases v)
  case None
  then show ?thesis by (simp add: csvEscape_None valueStr_def needsQuotes_def)
next
  case (Some s)
  show ?thesis
  proof (cases "needsQuotes s")
    case True
    then show ?thesis
      using scan_quoted[of "[]" row s rest] by (simp add: Some csvEscape_Some valueStr_def)
  next
    case False
    then show ?thesis
      using scan_plain[of s "[]" row rest] by (simp add: Some csvEscape_Some valueStr_def needsQuotes_def)
  qed
qed

lemma scan_field_sep:
  "csvScan Plain [] row (csvEscape v @ 59 # rest) = csvScan Plain [] (row @ [valueStr v]) rest"
  by (simp add: scan_field)

lemma scan_field_nl:
  "csvScan Plain [] row (csvEscape v @ 10 # rest) = (row @ [valueStr v]) # csvScan Plain [] [] rest"
  by (simp add: scan_field)

lemma scan_field_end:
  "csvScan Plain [] row (csvEscape v) = [row @ [valueStr v]]"
  using scan_field[of row v "[]"] by simp

lemma scan_row_nl:
  "vs \<noteq> [] \<Longrightarrow>
   csvScan Plain [] row (js_join [59] (map csvEscape vs) @ 10 # rest)
     = (row @ map valueStr vs) # csvScan Plain [] [] rest"
proof (induction vs arbitrary: row rule: induct_list012)
  case 1
  then show ?case by simp
next
  case (2 x)
  show ?case by (simp add: scan_field_nl)
next
  case (3 x y zs)
  then show ?case by (simp add: scan_field_sep)
qed

lemma scan_row_end:
  "vs \<noteq> [] \<Longrightarrow>
   csvScan Plain [] row (js_join [59] (map csvEscape vs)) = [row @ map valueStr vs]"
proof (induction vs arbitrary: row rule: induct_list012)
  case 1
  then show ?case by simp
next
  case (2 x)
  show ?case by (simp add: scan_field_end)
next
  case (3 x y zs)
  then show ?case by (simp add: scan_field_sep)
qed

lemma scan_lines:
  "rs \<noteq> [] \<Longrightarrow> \<forall>vs \<in> set rs. vs \<noteq> [] \<Longrightarrow>
   csvScan Plain [] [] (js_join [10] (map (\<lambda>vs. js_join [59] (map csvEscape vs)) rs))
     = map (map valueStr) rs"
proof (induction rs rule: induct_list012)
  case 1
  then show ?case by simp
next
  case (2 x)
  then show ?case by (simp add: scan_row_end)
next
  case (3 x y zs)
  then show ?case by (simp add: scan_row_nl)
qed


text \<open>
  C8. The file written by \<open>writeCsv\<close> starts with the byte-order mark U+FEFF; read as
  semicolon-separated text, what follows is exactly the header row and then one row per
  record, the fields of each row being the values of the record in the order of the
  header's columns (a missing value reads as the empty string). \<open>csvEscape\<close> wraps a value
  in double quotes, with every double quote inside doubled, exactly when the value
  contains a semicolon, a double quote, a line feed or a carriage return; otherwise it
  writes the value as it is.
\<close>

theorem writeCsv_file:
  "\<exists>content. writeCsv fs filePath headers rows filePath = Some (65279 # content)
     \<and> (headers \<noteq> [] \<longrightarrow>
          csvScan Plain [] [] content
            = headers # map (\<lambda>row. map (\<lambda>h. valueStr (row h)) headers) rows)
     \<and> csvEscape None = []
     \<and> (needsQuotes s \<longrightarrow> csvEscape (Some s) = [34] @ doubled s @ [34])
     \<and> (\<not> needsQuotes s \<longrightarrow> csvEscape (Some s) = s)"
proof -
  define rs where "rs = map Some headers # map (\<lambda>row. map row headers) rows"
  define content where
    "content = js_join [10] (map (\<lambda>vs. js_join [59] (map csvEscape vs)) rs)"
  have w: "writeCsv fs filePath headers rows filePath = Some (65279 # content)"
    by (simp add: writeCsv_def content_def rs_def js_def comp_def)
  have p: "csvScan Plain [] [] content
      = headers # map (\<lambda>row. map (\<lambda>h. valueStr (row h)) headers) rows"
    if h: "headers \<noteq> []"
  proof -
    have "\<forall>vs \<in> set rs. vs \<noteq> []" using h by (auto simp: rs_def)
    moreover have "rs \<noteq> []" by (simp add: rs_def)
    ultimately have "csvScan Plain [] [] content = map (map valueStr) rs"
      unfolding content_def by (intro scan_lines)
    then show ?thesis by (simp add: rs_def comp_def valueStr_def)
  qed
  show ?thesis
    using w p by (intro exI[of _ content]) (simp add: csvEscape_Some csvEscape_None)
qed

theorem writeCsv_file_witness:
  "[js ''juiz'', js ''data''] \<noteq> []
   \<and> needsQuotes (js ''A;\"B\"'') \<and> \<not> needsQuotes (js ''05/03/2026'')
   \<and> (\<exists>content.
        writeCsv Map.empty (js ''out.csv'') [js ''juiz'', js ''data'']
          [[js ''juiz'' \<mapsto> js ''A;\"B\"'', js ''data'' \<mapsto> js ''05/03/2026''], Map.empty]
          (js ''out.csv'') = Some (65279 # content)
        \<and> csvScan Plain [] [] content
            = [[js ''juiz'', js ''data''], [js ''A;\"B\"'', js ''05/03/2026''], [[], []]])
   \<and> csvEscape (Some (js ''A;\"B\"'')) = js ''\"A;\"\"B\"\"\"''
   \<and> csvEscape (Some (js ''05/03/2026'')) = js ''05/03/2026''"
proof -
  have n: "needsQuotes (js ''A;\"B\"'')" "\<not> needsQuotes (js ''05/03/2026'')"
    by (simp_all add: needsQuotes_def js_def)
  have d: "[34] @ doubled (js ''A;\"B\"'') @ [34] = js ''\"A;\"\"B\"\"\"''"
    by (simp add: js_def)
  have v: "map (\<lambda>row. map (\<lambda>h. valueStr (row h)) [js ''juiz'', js ''data''])
      [[js ''juiz'' \<mapsto> js ''A;\"B\"'', js ''data'' \<mapsto> js ''05/03/2026''], Map.empty]
      = [[js ''A;\"B\"'', js ''05/03/2026''], [[], []]]"
    by (simp add: valueStr_def js_def)
  define hs where "hs = [js ''juiz'', js ''data'']"
  define rws :: "row list" where
    "rws = [[js ''juiz'' \<mapsto> js ''A;\"B\"'', js ''data'' \<mapsto> js ''05/03/2026''], Map.empty]"
  have h: "hs \<noteq> []" by (simp add: hs_def)
  from writeCsv_file[of Map.empty "js ''out.csv''" hs rws "js ''A;\"B\"''"]
  obtain content where
    c: "writeCsv Map.empty (js ''out.csv'') hs rws (js ''out.csv'') = Some (65279 # content)"
    and p: "hs \<noteq> [] \<longrightarrow> csvScan Plain [] [] content
        = hs # map (\<lambda>row. map (\<lambda>h. valueStr (row h)) hs) rws"
    and e1: "needsQuotes (js ''A;\"B\"'') \<longrightarrow>
        csvEscape (Some (js ''A;\"B\"'')) = [34] @ doubled (js ''A;\"B\"'') @ [34]"
    by blast
  from writeCsv_file[of Map.empty "js ''out.csv''" hs rws "js ''05/03/2026''"]
  have e2: "\<not> needsQuotes (js ''05/03/2026'') \<longrightarrow>
      csvEscape (Some (js ''05/03/2026'')) = js ''05/03/2026''"
    by blast
  have s: "csvScan Plain [] [] content
      = [[js ''juiz'', js ''data''], [js ''A;\"B\"'', js ''05/03/2026''], [[], []]]"
    using p h v by (simp add: hs_def rws_def)
  have "\<exists>content.
        writeCsv Map.empty (js ''out.csv'') hs rws (js ''out.csv'') = Some (65279 # content)
        \<and> csvScan Plain [] [] content
            = [[js ''juiz'', js ''data''], [js ''A;\"B\"'', js ''05/03/2026''], [[], []]]"
    using c s by blast
  moreover have "csvEscape (Some (js ''A;\"B\"'')) = js ''\"A;\"\"B\"\"\"''"
    using e1 n(1) d by simp
  moreover have "csvEscape (Some (js ''05/03/2026'')) = js ''05/03/2026''"
    using e2 n(2) by simp
  ultimately show ?thesis
    using n h unfolding hs_def rws_def by blast
qed


end
